theory Spec2Isabelle
  imports Complex_Main
begin

section \<open>The local deforestation rate of \<open>local_defor_rate.py\<close>\<close>

text \<open>
  The function \<open>local_defor_rate\<close> reads a raster of forest cover change in blocks of rows,
  computes two moving-window means on every block, turns them into a rate code and writes
  the block to the output raster. The model follows the function line by line.

  Conventions of the model:
  \<^item> Python integers are \<open>int\<close>; a raster band is the list of its rows, each row the list
    of its cells (\<open>int list list\<close>), as the two-dimensional numpy array is.
  \<^item> The floating-point arrays are arrays of exact reals. Rounding errors of the
    floating-point unit are outside the model; the special values (infinity and
    not-a-number) are one value \<open>None\<close>.
  \<^item> The raster reader and writer are GDAL bands. A window that leaves the raster is an
    error; the error ends the run.
\<close>

subsection \<open>Python and numpy primitives\<close>

text \<open>\<open>range(start, stop, step)\<close> for a positive step; a negative step from 0 gives the
  empty range; a zero step raises ValueError at the call site.\<close>

function range_from :: "int \<Rightarrow> int \<Rightarrow> int \<Rightarrow> int list" where
  "range_from i stop step =
     (if 0 < step \<and> i < stop then i # range_from (i + step) stop step else [])"
  by pat_completeness auto
termination
  by (relation "measure (\<lambda>(i, stop, step). nat (stop - i))") auto

declare range_from.simps [simp del]

text \<open>The slice \<open>xs[k:]\<close>: a negative \<open>k\<close> counts from the end.\<close>

definition slice_from :: "int \<Rightarrow> 'a list \<Rightarrow> 'a list" where
  "slice_from k xs =
     drop (nat (if k < 0 then max 0 (int (length xs) + k) else k)) xs"

text \<open>\<open>np.rint\<close>: the nearest integer, a tie going to the even neighbour.\<close>

definition rint :: "real \<Rightarrow> int" where
  "rint x =
     (let f = \<lfloor>x\<rfloor>; d = x - of_int f
      in if d < 1 / 2 then f
         else if 1 / 2 < d then f + 1
         else if even f then f else f + 1)"

text \<open>The value numpy stores when a float that is not a finite 64-bit integer is cast
  to \<open>int\<close>.\<close>

definition int_min :: int where
  "int_min = - (2 ^ 63)"

definition astype_int :: "int \<Rightarrow> int" where
  "astype_int n = (if - (2 ^ 63) \<le> n \<and> n < 2 ^ 63 then n else int_min)"

text \<open>Float division: a zero divisor gives a special value.\<close>

definition np_divide :: "real \<Rightarrow> real \<Rightarrow> real option" where
  "np_divide a b = (if b = 0 then None else Some (a / b))"

text \<open>Float power \<open>x ** t\<close>. Anything to the power 0 is 1; a positive base is real
  exponentiation; 0 to a negative power is infinite; a negative base has a real power
  for an integral exponent only.\<close>

definition np_power :: "real \<Rightarrow> real \<Rightarrow> real option" where
  "np_power x t =
     (if t = 0 then Some 1
      else if 0 < x then Some (x powr t)
      else if x = 0 then (if 0 < t then Some 0 else None)
      else if of_int \<lfloor>t\<rfloor> = t then Some ((if even \<lfloor>t\<rfloor> then 1 else - 1) * ((- x) powr t))
      else None)"

subsection \<open>The moving-window mean of scipy\<close>

text \<open>\<open>mode="constant", cval=0\<close>: a position outside the line reads as 0.\<close>

definition at0 :: "real list \<Rightarrow> int \<Rightarrow> real" where
  "at0 xs k = (if 0 \<le> k \<and> k < int (length xs) then xs ! nat k else 0)"

text \<open>\<open>uniform_filter1d\<close> with origin 0: the window of cell \<open>l\<close> starts \<open>size // 2\<close>
  cells before it and holds \<open>size\<close> cells.\<close>

definition uniform_filter1d :: "int \<Rightarrow> real list \<Rightarrow> real list" where
  "uniform_filter1d fsize xs =
     map (\<lambda>l. (\<Sum>k\<leftarrow>[int l - fsize div 2 .. int l + (fsize - fsize div 2 - 1)]. at0 xs k)
               / of_int fsize)
       [0..<length xs]"

definition ncols :: "'a list list \<Rightarrow> nat" where
  "ncols A = (case A of [] \<Rightarrow> 0 | row # _ \<Rightarrow> length row)"

definition column :: "'a list list \<Rightarrow> nat \<Rightarrow> 'a list" where
  "column A c = map (\<lambda>row. row ! c) A"

text \<open>The one-dimensional filter along axis 0 (down every column) and along axis 1
  (along every row).\<close>

definition filter_axis0 :: "int \<Rightarrow> real list list \<Rightarrow> real list list" where
  "filter_axis0 fsize A =
     map (\<lambda>r. map (\<lambda>c. uniform_filter1d fsize (column A c) ! r) [0..<ncols A])
       [0..<length A]"

definition filter_axis1 :: "int \<Rightarrow> real list list \<Rightarrow> real list list" where
  "filter_axis1 fsize A = map (uniform_filter1d fsize) A"

text \<open>\<open>uniform_filter(input, size, mode="constant", cval=0, output=float)\<close>: the axes
  whose size exceeds 1 are filtered one after the other, axis 0 first; with no such axis
  the input is copied.\<close>

definition uniform_filter :: "int list list \<Rightarrow> int \<Rightarrow> real list list" where
  "uniform_filter input fsize =
     (if 1 < fsize then filter_axis1 fsize (filter_axis0 fsize (map (map of_int) input))
      else map (map of_int) input)"

subsection \<open>One block\<close>

definition extra_lines :: "int \<Rightarrow> int" where
  "extra_lines win_size = win_size div 2"

definition rows :: "int \<Rightarrow> int \<Rightarrow> int \<Rightarrow> int \<Rightarrow> int" where
  "rows ysize blk_rows win_size i =
     (if i + blk_rows + 2 * extra_lines win_size - 1 < ysize
      then blk_rows + 2 * extra_lines win_size
      else ysize - i + extra_lines win_size)"

definition yoff :: "int \<Rightarrow> int \<Rightarrow> int" where
  "yoff win_size i = max 0 (i - extra_lines win_size)"

definition defor_data :: "int list list \<Rightarrow> int list list" where
  "defor_data in_data = map (map (\<lambda>v. if v = 1 then 1 else 0)) in_data"

definition for_data :: "int list list \<Rightarrow> int list list" where
  "for_data in_data = map (map (\<lambda>v. if 0 < v then 1 else 0)) in_data"

definition win_defor :: "int list list \<Rightarrow> int \<Rightarrow> real list list" where
  "win_defor in_data win_size = uniform_filter (defor_data in_data) win_size"

definition win_for :: "int list list \<Rightarrow> int \<Rightarrow> real list list" where
  "win_for in_data win_size = uniform_filter (for_data in_data) win_size"

text \<open>The right-hand side of the assignment to \<open>out_data[w]\<close> at one cell:
  \<open>np.rint(10000 * (1 - (1 - win_defor / win_for) ** time_interval)).astype(int)\<close>.\<close>

definition rate_code :: "real \<Rightarrow> real \<Rightarrow> real \<Rightarrow> int" where
  "rate_code wdefor wfor time_interval =
     (case np_divide wdefor wfor of
        None \<Rightarrow> int_min
      | Some p \<Rightarrow>
          (case np_power (1 - p) time_interval of
             None \<Rightarrow> int_min
           | Some s \<Rightarrow> astype_int (rint (10000 * (1 - s)))))"

text \<open>\<open>out_data\<close> is 65535 everywhere, except at the cells of \<open>w = np.where(in_data > 0)\<close>,
  which receive the rate code.\<close>

definition out_cell :: "int list list \<Rightarrow> int \<Rightarrow> real \<Rightarrow> nat \<Rightarrow> nat \<Rightarrow> int" where
  "out_cell in_data win_size time_interval r c =
     (if 0 < in_data ! r ! c
      then rate_code (win_defor in_data win_size ! r ! c) (win_for in_data win_size ! r ! c)
             time_interval
      else 65535)"

definition out_data :: "int list list \<Rightarrow> int \<Rightarrow> real \<Rightarrow> int list list" where
  "out_data in_data win_size time_interval =
     map (\<lambda>r. map (\<lambda>c. out_cell in_data win_size time_interval r c)
                [0..<length (in_data ! r)])
       [0..<length in_data]"

text \<open>The array and the row that \<open>WriteArray\<close> receives: the whole block at row 0 when
  \<open>yoff == 0\<close>, the block without its first \<open>extra_lines\<close> rows at row
  \<open>yoff + extra_lines\<close> otherwise.\<close>

definition written :: "int \<Rightarrow> int \<Rightarrow> 'a list \<Rightarrow> 'a list \<times> int" where
  "written win_size i out =
     (if yoff win_size i = 0 then (out, 0)
      else (slice_from (extra_lines win_size) out, yoff win_size i + extra_lines win_size))"

subsection \<open>The raster bands\<close>

datatype error = ValueError | ReadError | WriteError

datatype io = Read int int | Write int nat

text \<open>\<open>ReadAsArray(0, yoff, xsize, rows)\<close>: the rows \<open>yoff\<close> to \<open>yoff + rows - 1\<close> in
  full width, or no array when the window is empty or leaves the raster.\<close>

definition ReadAsArray :: "int list list \<Rightarrow> int \<Rightarrow> int \<Rightarrow> int list list option" where
  "ReadAsArray band y n =
     (if 0 \<le> y \<and> 0 < n \<and> y + n \<le> int (length band)
      then Some (take (nat n) (drop (nat y) band)) else None)"

text \<open>The output band is the list of its rows; a row that no block has written yet is
  \<open>None\<close>. \<open>WriteArray(array, 0, y)\<close> replaces the rows from \<open>y\<close> on.\<close>

definition WriteArray ::
  "int list option list \<Rightarrow> int list list \<Rightarrow> int \<Rightarrow> int list option list option" where
  "WriteArray band array y =
     (if 0 \<le> y \<and> y + int (length array) \<le> int (length band)
      then Some (take (nat y) band @ map Some array @ drop (nat y + length array) band)
      else None)"

subsection \<open>The run\<close>

text \<open>What a run leaves behind: the messages it printed (the progress bar apart), the
  reads and writes it asked of the bands, the output band (\<open>None\<close> when no output raster
  was created) and the error that ended it, if any.\<close>

record world =
  messages :: "string list"
  io_log :: "io list"
  out_band :: "int list option list option"
  raised :: "error option"

text \<open>The body of the loop for the block that starts at row \<open>i\<close>.\<close>

definition block_step ::
  "int list list \<Rightarrow> int \<Rightarrow> real \<Rightarrow> int \<Rightarrow> int \<Rightarrow> world \<Rightarrow> world" where
  "block_step in_band win_size time_interval blk_rows i w =
     (let n = rows (int (length in_band)) blk_rows win_size i;
          y = yoff win_size i;
          w1 = w\<lparr>io_log := io_log w @ [Read y n]\<rparr>
      in case ReadAsArray in_band y n of
           None \<Rightarrow> w1\<lparr>raised := Some ReadError\<rparr>
         | Some in_data \<Rightarrow>
             (let (array, target) = written win_size i (out_data in_data win_size time_interval);
                  w2 = w1\<lparr>io_log := io_log w1 @ [Write target (length array)]\<rparr>
              in case out_band w2 of
                   None \<Rightarrow> w2\<lparr>raised := Some WriteError\<rparr>
                 | Some band \<Rightarrow>
                     (case WriteArray band array target of
                        None \<Rightarrow> w2\<lparr>raised := Some WriteError\<rparr>
                      | Some band' \<Rightarrow> w2\<lparr>out_band := Some band'\<rparr>)))"

fun blocks_loop ::
  "int list list \<Rightarrow> int \<Rightarrow> real \<Rightarrow> int \<Rightarrow> int list \<Rightarrow> world \<Rightarrow> world" where
  "blocks_loop in_band win_size time_interval blk_rows [] w = w"
| "blocks_loop in_band win_size time_interval blk_rows (i # is) w =
     (let w' = block_step in_band win_size time_interval blk_rows i w
      in if raised w' = None
         then blocks_loop in_band win_size time_interval blk_rows is w'
         else w')"

text \<open>A name between single quotes, as the messages print it.\<close>

definition quoted :: "string \<Rightarrow> string" where
  "quoted s = CHR 0x27 # s @ [CHR 0x27]"

definition start_world :: world where
  "start_world = \<lparr>messages = [], io_log = [], out_band = None, raised = None\<rparr>"

definition local_defor_rate :: "int list list \<Rightarrow> int \<Rightarrow> real \<Rightarrow> int \<Rightarrow> world" where
  "local_defor_rate in_band win_size time_interval blk_rows =
     (if win_size mod 2 = 0
      then start_world\<lparr>messages := [quoted ''win_size'' @ '' must be an odd number.'']\<rparr>
      else if blk_rows < win_size
      then start_world\<lparr>messages := [quoted ''win_size'' @ '' must be lower or equal to '' @ quoted ''blk_rows'' @ ''.'']\<rparr>
      else
        (let ysize = int (length in_band);
             w = start_world\<lparr>out_band := Some (replicate (length in_band) None)\<rparr>
         in if blk_rows = 0 then w\<lparr>raised := Some ValueError\<rparr>
            else blocks_loop in_band win_size time_interval blk_rows
                   (range_from 0 ysize blk_rows) w))"

subsection \<open>The rows a run writes\<close>

text \<open>The row ranges that a run has written, read from its log: a write of \<open>n\<close> rows at
  row \<open>y\<close> is the range from \<open>y\<close> to \<open>y + n\<close>, the last row excluded; a read writes
  nothing. \<open>times_written\<close> counts the writes whose range holds the row \<open>r\<close>.\<close>

fun write_ranges :: "io list \<Rightarrow> (int \<times> int) list" where
  "write_ranges [] = []"
| "write_ranges (Read y n # evs) = write_ranges evs"
| "write_ranges (Write y n # evs) = (y, y + int n) # write_ranges evs"

definition times_written :: "io list \<Rightarrow> int \<Rightarrow> nat" where
  "times_written evs r = length (filter (\<lambda>(a, b). a \<le> r \<and> r < b) (write_ranges evs))"

text \<open>A configuration that passes the two checks on \<open>win_size\<close>, for a raster with at
  least one row and a window of at least one cell.\<close>

definition valid_config :: "int \<Rightarrow> int \<Rightarrow> int \<Rightarrow> bool" where
  "valid_config ysize blk_rows win_size =
     (1 \<le> ysize \<and> 1 \<le> win_size \<and> win_size mod 2 = 1 \<and> win_size \<le> blk_rows)"

subsection \<open>Windows over a whole array\<close>

text \<open>An array with \<open>n\<close> columns: every row has \<open>n\<close> cells. Every block that
  \<open>ReadAsArray\<close> returns is such an array.\<close>

definition rectangular :: "'a list list \<Rightarrow> nat \<Rightarrow> bool" where
  "rectangular A n = list_all (\<lambda>row. length row = n) A"

text \<open>The cell at row \<open>i\<close> and column \<open>j\<close> of an array with \<open>n\<close> columns, 0 outside the
  array, and the sum of such cells over the window of side \<open>fsize\<close> around a cell.\<close>

definition at2 :: "int list list \<Rightarrow> nat \<Rightarrow> int \<Rightarrow> int \<Rightarrow> real" where
  "at2 A n i j =
     (if 0 \<le> i \<and> i < int (length A) \<and> 0 \<le> j \<and> j < int n
      then of_int (A ! nat i ! nat j) else 0)"

definition window_sum :: "int list list \<Rightarrow> nat \<Rightarrow> int \<Rightarrow> int \<Rightarrow> int \<Rightarrow> real" where
  "window_sum A n fsize r c =
     (\<Sum>j\<leftarrow>[c - fsize div 2 .. c + (fsize - fsize div 2 - 1)].
        \<Sum>i\<leftarrow>[r - fsize div 2 .. r + (fsize - fsize div 2 - 1)]. at2 A n i j)"

text \<open>The cells of an array with \<open>m\<close> rows and \<open>n\<close> columns that lie in the window of side
  \<open>win_size\<close> centred on the cell \<open>(r, c)\<close>, and the number of those that hold a 1.\<close>

definition window_cells :: "nat \<Rightarrow> nat \<Rightarrow> int \<Rightarrow> nat \<Rightarrow> nat \<Rightarrow> (nat \<times> nat) list" where
  "window_cells m n win_size r c =
     filter (\<lambda>(i, j). \<bar>int i - int r\<bar> \<le> win_size div 2 \<and> \<bar>int j - int c\<bar> \<le> win_size div 2)
       (List.product [0..<m] [0..<n])"

definition ones_in_window :: "int list list \<Rightarrow> int \<Rightarrow> nat \<Rightarrow> nat \<Rightarrow> nat" where
  "ones_in_window A win_size r c =
     length (filter (\<lambda>(i, j). A ! i ! j = 1)
               (window_cells (length A) (ncols A) win_size r c))"

text \<open>A binary mask: every cell is 0 or 1.\<close>

definition binary :: "int list list \<Rightarrow> bool" where
  "binary A = list_all (list_all (\<lambda>v. v = 0 \<or> v = 1)) A"

text \<open>The state of the loop before the block that starts at row \<open>i\<close>: no error so far,
  and every row of the output above row \<open>i\<close> holds the row that \<open>out_data\<close> computes on the
  whole grid.\<close>

definition done_upto :: "int list list \<Rightarrow> int \<Rightarrow> real \<Rightarrow> int \<Rightarrow> world \<Rightarrow> bool" where
  "done_upto in_band win_size time_interval i w =
     (raised w = None
      \<and> (\<exists>band. out_band w = Some band \<and> length band = length in_band
            \<and> (\<forall>r<length in_band.
                  int r < i \<longrightarrow> band ! r = Some (out_data in_band win_size time_interval ! r))))"

text \<open>The computation without blocks: the masks, the two window means and the rate
  code in a single pass over the whole grid.\<close>

definition single_pass :: "int list list \<Rightarrow> int \<Rightarrow> real \<Rightarrow> int list list" where
  "single_pass in_band win_size time_interval = out_data in_band win_size time_interval"

section \<open>Properties\<close>

subsection \<open>The block starts\<close>

lemma range_from_set:
  "0 < step \<Longrightarrow>
   set (range_from a stop step) = {i. a \<le> i \<and> i < stop \<and> (i - a) mod step = 0}"
proof (induction a stop step rule: range_from.induct)
  case (1 i stop step)
  show ?case
  proof (cases "i < stop")
    case False
    then show ?thesis by (subst range_from.simps) auto
  next
    case True
    have IH: "set (range_from (i + step) stop step) =
        {j. i + step \<le> j \<and> j < stop \<and> (j - (i + step)) mod step = 0}"
      using 1 True by simp
    have "\<And>j. (j - (i + step)) mod step = (j - i) mod step"
      by (metis diff_diff_eq mod_diff_right_eq mod_self diff_zero)
    hence IH': "set (range_from (i + step) stop step) =
        {j. i + step \<le> j \<and> j < stop \<and> (j - i) mod step = 0}"
      using IH by simp
    have "\<And>j. i \<le> j \<Longrightarrow> (j - i) mod step = 0 \<Longrightarrow> j \<noteq> i \<Longrightarrow> i + step \<le> j"
    proof -
      fix j assume a: "i \<le> j" "(j - i) mod step = 0" "j \<noteq> i"
      then obtain k where k: "j - i = step * k" by (auto simp: mod_eq_0_iff_dvd)
      with a 1(2) have "0 < k"
        by (smt (verit) mult_nonneg_nonpos mult_less_cancel_left_disj zero_less_mult_iff)
      hence "step * 1 \<le> step * k" using 1(2) by (intro mult_left_mono) auto
      thus "i + step \<le> j" using k by simp
    qed
    then show ?thesis using True 1(2) IH'
      by (subst range_from.simps) auto
  qed
qed

subsection \<open>The halo of a valid configuration\<close>

lemma extra_lines_bounds:
  assumes "valid_config ysize blk_rows win_size"
  shows "0 \<le> extra_lines win_size" "2 * extra_lines win_size + 1 = win_size"
    "2 * extra_lines win_size < blk_rows" "0 < blk_rows"
proof -
  have "win_size = 2 * (win_size div 2) + win_size mod 2" by simp
  thus "0 \<le> extra_lines win_size" "2 * extra_lines win_size + 1 = win_size"
    "2 * extra_lines win_size < blk_rows" "0 < blk_rows"
    using assms unfolding valid_config_def extra_lines_def by linarith+
qed

subsection \<open>The rows read by the blocks\<close>

text \<open>A block that does not start at row 0, the first block of a grid on which it is not
  the last one, or any block with a window of one cell reads inside the grid.\<close>

lemma read_inside_grid:
  assumes "valid_config ysize blk_rows win_size" "i \<in> set (range_from 0 ysize blk_rows)"
    and "0 < i \<or> blk_rows + 2 * extra_lines win_size - 1 < ysize \<or> win_size = 1"
  shows "0 \<le> yoff win_size i \<and> 0 < rows ysize blk_rows win_size i
       \<and> yoff win_size i + rows ysize blk_rows win_size i \<le> ysize"
proof -
  note e = extra_lines_bounds[OF assms(1)]
  have i: "0 \<le> i" "i < ysize" "i mod blk_rows = 0"
    using assms(2) range_from_set[OF e(4), of 0 ysize] by auto
  have "blk_rows \<le> i" if "0 < i"
    using that i(3) e(4) by (metis less_le_not_le mod_pos_pos_trivial not_le_imp_less i(1))
  moreover have "extra_lines win_size = 0" if "win_size = 1" using that e(2) by simp
  ultimately show ?thesis using assms(3) e i(1,2)
    by (auto simp: yoff_def rows_def)
qed

text \<open>
  Claim C3: every block read stays inside the grid, also when the first block is the last
  one. On the grid of 3 rows and 3 columns with blocks of 3 rows and a window of 3 cells
  there is one block, which starts at row 0 and asks for 4 rows from row 0 on: one row
  more than the grid has. The read fails and the run ends before any row is written.
\<close>

theorem single_block_read_leaves_grid:
  "range_from 0 3 3 = [0] \<and> yoff 3 0 = 0 \<and> rows 3 3 3 0 = 4
   \<and> io_log (local_defor_rate [[3, 3, 3], [3, 3, 3], [3, 3, 3]] 3 5 3) = [Read 0 4]
   \<and> raised (local_defor_rate [[3, 3, 3], [3, 3, 3], [3, 3, 3]] 3 5 3) = Some ReadError
   \<and> out_band (local_defor_rate [[3, 3, 3], [3, 3, 3], [3, 3, 3]] 3 5 3)
       = Some [None, None, None]"
  by (simp add: local_defor_rate_def start_world_def range_from.simps block_step_def
      rows_def yoff_def extra_lines_def ReadAsArray_def)

subsection \<open>Rejected configurations\<close>

text \<open>
  Claim C7, as stated: a configuration with an even \<open>win_size\<close>, or with \<open>win_size\<close> greater
  than \<open>blk_rows\<close>, signals an invalid-parameter error. With a window of 4 cells and blocks
  of 3 rows the run prints its message and returns as a run without error does: nothing is
  raised, no error reaches the caller.
\<close>

theorem invalid_configuration_raises_nothing:
  "raised (local_defor_rate [[3, 3, 3], [3, 3, 3], [3, 3, 3]] 4 5 3) = None
   \<and> messages (local_defor_rate [[3, 3, 3], [3, 3, 3], [3, 3, 3]] 4 5 3) =
        [quoted ''win_size'' @ '' must be an odd number.'']"
  by (simp add: local_defor_rate_def start_world_def)

text \<open>
  Claim C7, amended: when \<open>win_size\<close> is even or greater than \<open>blk_rows\<close>, the run prints the
  message of the failed check and returns at once, without raising an error: no read, no
  write, no output raster.
\<close>

theorem invalid_configuration_aborts:
  assumes "win_size mod 2 = 0 \<or> blk_rows < win_size"
  shows "messages (local_defor_rate in_band win_size time_interval blk_rows) =
           [if win_size mod 2 = 0 then quoted ''win_size'' @ '' must be an odd number.''
            else quoted ''win_size'' @ '' must be lower or equal to ''
                 @ quoted ''blk_rows'' @ ''.'']
       \<and> io_log (local_defor_rate in_band win_size time_interval blk_rows) = []
       \<and> out_band (local_defor_rate in_band win_size time_interval blk_rows) = None
       \<and> raised (local_defor_rate in_band win_size time_interval blk_rows) = None"
  using assms by (auto simp: local_defor_rate_def start_world_def)

text \<open>Claim C7, witness: a window of 4 cells with blocks of 3 rows.\<close>

theorem invalid_configuration_aborts_witness:
  "((4::int) mod 2 = 0 \<or> (3::int) < 4)
   \<and> messages (local_defor_rate [[3, 3, 3], [3, 3, 3], [3, 3, 3]] 4 5 3) =
        [quoted ''win_size'' @ '' must be an odd number.'']
   \<and> io_log (local_defor_rate [[3, 3, 3], [3, 3, 3], [3, 3, 3]] 4 5 3) = []
   \<and> out_band (local_defor_rate [[3, 3, 3], [3, 3, 3], [3, 3, 3]] 4 5 3) = None"
  using invalid_configuration_aborts [of 4 3 "[[3, 3, 3], [3, 3, 3], [3, 3, 3]]" 5]
  by simp

subsection \<open>The moving-window mean as a sum over the window\<close>

lemma length_uniform_filter1d [simp]: "length (uniform_filter1d f xs) = length xs"
  by (simp add: uniform_filter1d_def)

lemma nth_uniform_filter1d:
  "l < length xs \<Longrightarrow> uniform_filter1d f xs ! l =
     (\<Sum>k\<leftarrow>[int l - f div 2 .. int l + (f - f div 2 - 1)]. at0 xs k) / of_int f"
  by (simp add: uniform_filter1d_def)

lemma rectangular_nth: "rectangular A n \<Longrightarrow> i < length A \<Longrightarrow> length (A ! i) = n"
  by (simp add: rectangular_def list_all_length)

lemma rectangular_ncols: "rectangular A n \<Longrightarrow> A \<noteq> [] \<Longrightarrow> ncols A = n"
  by (cases A) (simp_all add: rectangular_def ncols_def)

lemma rectangular_ncols_map:
  "rectangular A n \<Longrightarrow> r < length A \<Longrightarrow> ncols (map (map f) A) = n"
  by (cases A) (simp_all add: rectangular_def ncols_def)

lemma rectangular_map: "rectangular (map (map f) A) n = rectangular A n"
  by (simp add: rectangular_def list_all_length)

lemma at0_column:
  assumes "rectangular A n" "j < n"
  shows "at0 (column (map (map of_int) A) j) i = at2 A n i (int j)"
  using assms by (auto simp: at0_def at2_def column_def rectangular_nth)

lemma sum_list_divide: "(\<Sum>x\<leftarrow>xs. f x / (c::real)) = (\<Sum>x\<leftarrow>xs. f x) / c"
  by (induction xs) (simp_all add: add_divide_distrib)

lemma nth_uniform_filter:
  assumes "rectangular A n" "r < length A" "c < n" "1 < f"
  shows "uniform_filter A f ! r ! c = window_sum A n f (int r) (int c) / of_int (f * f)"
proof -
  let ?A = "map (map real_of_int) A"
  let ?win = "\<lambda>x. [int x - f div 2 .. int x + (f - f div 2 - 1)]"
  have nc: "ncols ?A = n" using assms(1,2) by (rule rectangular_ncols_map)
  have row: "filter_axis0 f ?A ! r = map (\<lambda>c. uniform_filter1d f (column ?A c) ! r) [0..<n]"
    using assms(2) nc by (simp add: filter_axis0_def)
  have cell: "at0 (filter_axis0 f ?A ! r) j = (\<Sum>i\<leftarrow>?win r. at2 A n i j) / of_int f" for j
  proof (cases "0 \<le> j \<and> j < int n")
    case True
    hence nj: "nat j < n" by linarith
    hence "at0 (filter_axis0 f ?A ! r) j = uniform_filter1d f (column ?A (nat j)) ! r"
      using True by (simp add: row at0_def)
    also have "\<dots> = (\<Sum>i\<leftarrow>?win r. at0 (column ?A (nat j)) i) / of_int f"
      using assms(2) by (simp add: nth_uniform_filter1d column_def)
    also have "\<dots> = (\<Sum>i\<leftarrow>?win r. at2 A n i j) / of_int f"
      using True nj at0_column[OF assms(1), of "nat j"] by simp
    finally show ?thesis .
  next
    case False
    hence "at0 (filter_axis0 f ?A ! r) j = 0" by (auto simp: row at0_def)
    moreover have "at2 A n i j = 0" for i using False by (auto simp: at2_def)
    ultimately show ?thesis by simp
  qed
  have "uniform_filter A f ! r ! c = uniform_filter1d f (filter_axis0 f ?A ! r) ! c"
    using assms(2,4) by (simp add: uniform_filter_def filter_axis1_def filter_axis0_def)
  also have "\<dots> = (\<Sum>j\<leftarrow>?win c. at0 (filter_axis0 f ?A ! r) j) / of_int f"
    using assms(3) by (simp add: nth_uniform_filter1d row)
  also have "\<dots> = (\<Sum>j\<leftarrow>?win c. (\<Sum>i\<leftarrow>?win r. at2 A n i j) / of_int f) / of_int f"
    by (simp add: cell)
  also have "\<dots> = window_sum A n f (int r) (int c) / of_int (f * f)"
    by (simp add: sum_list_divide window_sum_def)
  finally show ?thesis .
qed

lemma window_sum_1: "window_sum A n 1 r c = at2 A n r c"
  by (simp add: window_sum_def)

lemma nth_uniform_filter_small:
  assumes "r < length A" "c < length (A ! r)" "f \<le> 1"
  shows "uniform_filter A f ! r ! c = of_int (A ! r ! c)"
  using assms by (simp add: uniform_filter_def)

lemma nth_uniform_filter_pos:
  assumes "rectangular A n" "r < length A" "c < n" "1 \<le> f"
  shows "uniform_filter A f ! r ! c = window_sum A n f (int r) (int c) / of_int (f * f)"
proof (cases "f = 1")
  case True
  then show ?thesis using assms nth_uniform_filter_small[of r A c f]
    by (simp add: window_sum_1 at2_def rectangular_nth)
next
  case False
  then show ?thesis using assms nth_uniform_filter by simp
qed

lemma length_uniform_filter: "length (uniform_filter A f) = length A"
  by (simp add: uniform_filter_def filter_axis1_def filter_axis0_def)

lemma length_nth_uniform_filter:
  assumes "rectangular A n" "r < length A"
  shows "length (uniform_filter A f ! r) = n"
proof -
  have "ncols (map (map real_of_int) A) = n" using assms by (rule rectangular_ncols_map)
  thus ?thesis using assms
  by (simp add: uniform_filter_def filter_axis1_def filter_axis0_def rectangular_nth)
qed

subsection \<open>The two masks and their window means\<close>

lemma length_masks [simp]:
  "length (for_data D) = length D" "length (defor_data D) = length D"
  by (simp_all add: for_data_def defor_data_def)

lemma rectangular_masks [simp]:
  "rectangular (for_data D) n = rectangular D n"
  "rectangular (defor_data D) n = rectangular D n"
  by (simp_all add: for_data_def defor_data_def rectangular_map)

lemma at2_for_data:
  assumes "rectangular D n"
  shows "at2 (for_data D) n i j =
    (if 0 \<le> i \<and> i < int (length D) \<and> 0 \<le> j \<and> j < int n \<and> 0 < D ! nat i ! nat j then 1 else 0)"
proof -
  have "nat j < length (D ! nat i)" if "0 \<le> i" "i < int (length D)" "0 \<le> j" "j < int n"
    using that rectangular_nth[OF assms, of "nat i"] by simp
  thus ?thesis by (auto simp: at2_def for_data_def)
qed

lemma at2_defor_data:
  assumes "rectangular D n"
  shows "at2 (defor_data D) n i j =
    (if 0 \<le> i \<and> i < int (length D) \<and> 0 \<le> j \<and> j < int n \<and> D ! nat i ! nat j = 1 then 1 else 0)"
proof -
  have "nat j < length (D ! nat i)" if "0 \<le> i" "i < int (length D)" "0 \<le> j" "j < int n"
    using that rectangular_nth[OF assms, of "nat i"] by simp
  thus ?thesis by (auto simp: at2_def defor_data_def)
qed

lemma window_sum_mono:
  assumes "\<And>i j. at2 A n i j \<le> at2 B n i j"
  shows "window_sum A n f r c \<le> window_sum B n f r c"
  unfolding window_sum_def by (intro sum_list_mono assms)

lemma sum_list_map_nonneg: "(\<And>x. x \<in> set xs \<Longrightarrow> 0 \<le> g x) \<Longrightarrow> (0::real) \<le> (\<Sum>x\<leftarrow>xs. g x)"
  by (induction xs) auto

lemma member_le_sum_list_real:
  "(\<And>x. x \<in> set xs \<Longrightarrow> 0 \<le> g x) \<Longrightarrow> y \<in> set xs \<Longrightarrow> g y \<le> (\<Sum>x\<leftarrow>xs. g x :: real)"
proof (induction xs)
  case Nil
  then show ?case by simp
next
  case (Cons a xs)
  have "0 \<le> (\<Sum>x\<leftarrow>xs. g x)" using Cons.prems(1) by (intro sum_list_map_nonneg) simp
  moreover have "0 \<le> g a" using Cons.prems(1) by simp
  ultimately show ?case using Cons by (cases "y = a") (auto simp: add_increasing)
qed

lemma window_sum_nonneg:
  assumes "\<And>i j. 0 \<le> at2 A n i j"
  shows "0 \<le> window_sum A n f r c"
  unfolding window_sum_def by (intro sum_list_map_nonneg assms)

lemma window_sum_centre:
  assumes "\<And>i j. 0 \<le> at2 A n i j" "1 \<le> f"
  shows "at2 A n r c \<le> window_sum A n f r c"
proof -
  have h: "0 \<le> f div 2" "0 \<le> f - f div 2 - 1" using assms(2) by linarith+
  let ?rs = "[r - f div 2 .. r + (f - f div 2 - 1)]"
  let ?cs = "[c - f div 2 .. c + (f - f div 2 - 1)]"
  have "at2 A n r c \<le> (\<Sum>i\<leftarrow>?rs. at2 A n i c)"
    using h by (intro member_le_sum_list_real assms(1)) simp
  also have "\<dots> \<le> (\<Sum>j\<leftarrow>?cs. \<Sum>i\<leftarrow>?rs. at2 A n i j)"
    using h by (intro member_le_sum_list_real[where g = "\<lambda>j. \<Sum>i\<leftarrow>?rs. at2 A n i j"] sum_list_map_nonneg assms(1)) simp
  finally show ?thesis by (simp add: window_sum_def)
qed

lemma win_defor_le_win_for:
  assumes "rectangular D n" "r < length D" "c < n"
  shows "win_defor D f ! r ! c \<le> win_for D f ! r ! c"
proof (cases "1 \<le> f")
  case True
  have "window_sum (defor_data D) n f (int r) (int c) \<le> window_sum (for_data D) n f (int r) (int c)"
    by (intro window_sum_mono) (simp add: at2_for_data[OF assms(1)] at2_defor_data[OF assms(1)])
  moreover have "0 < real_of_int (f * f)" using True by simp
  ultimately show ?thesis using True assms
    unfolding win_defor_def win_for_def
    by (simp only: nth_uniform_filter_pos rectangular_masks length_masks divide_right_mono less_imp_le)
next
  case False
  hence "f \<le> 1" by simp
  moreover have "c < length (D ! r)" using assms by (simp add: rectangular_nth)
  ultimately show ?thesis using assms
    by (simp add: win_defor_def win_for_def nth_uniform_filter_small for_data_def defor_data_def)
qed

lemma win_defor_nonneg:
  assumes "rectangular D n" "r < length D" "c < n"
  shows "0 \<le> win_defor D f ! r ! c"
proof (cases "1 \<le> f")
  case True
  have "0 \<le> window_sum (defor_data D) n f (int r) (int c)"
    by (intro window_sum_nonneg) (simp add: at2_defor_data[OF assms(1)])
  moreover have "0 < real_of_int (f * f)" using True by simp
  ultimately show ?thesis using True assms
    unfolding win_defor_def
    by (simp only: nth_uniform_filter_pos rectangular_masks length_masks divide_nonneg_pos)
next
  case False
  hence "f \<le> 1" by simp
  moreover have "c < length (D ! r)" using assms by (simp add: rectangular_nth)
  ultimately show ?thesis using assms
    by (simp add: win_defor_def nth_uniform_filter_small defor_data_def)
qed

lemma win_for_centre:
  assumes "rectangular D n" "r < length D" "c < n" "0 < D ! r ! c" "1 \<le> f"
  shows "1 / of_int (f * f) \<le> win_for D f ! r ! c"
proof -
  have "at2 (for_data D) n (int r) (int c) \<le> window_sum (for_data D) n f (int r) (int c)"
    using assms(5) by (intro window_sum_centre) (simp_all add: at2_for_data[OF assms(1)])
  moreover have "at2 (for_data D) n (int r) (int c) = 1"
    using assms by (simp add: at2_for_data[OF assms(1)])
  moreover have "0 < real_of_int (f * f)" using assms(5) by simp
  ultimately show ?thesis using assms
    unfolding win_for_def
    by (simp only: nth_uniform_filter_pos rectangular_masks length_masks divide_right_mono less_imp_le)
qed

lemma win_for_pos:
  assumes "rectangular D n" "r < length D" "c < n" "0 < D ! r ! c"
  shows "0 < win_for D f ! r ! c"
proof (cases "1 \<le> f")
  case True
  hence "0 < 1 / real_of_int (f * f)" by simp
  thus ?thesis using win_for_centre[OF assms True] by linarith
next
  case False
  hence "f \<le> 1" by simp
  moreover have "c < length (D ! r)" using assms by (simp add: rectangular_nth)
  ultimately show ?thesis using assms
    by (simp add: win_for_def nth_uniform_filter_small for_data_def)
qed

lemma nth_out_data:
  "r < length D \<Longrightarrow> c < length (D ! r) \<Longrightarrow> out_data D f t ! r ! c = out_cell D f t r c"
  by (simp add: out_data_def)

subsection \<open>The rate code\<close>

lemma rint_bounds: "\<lfloor>x\<rfloor> \<le> rint x \<and> rint x \<le> \<lceil>x\<rceil>"
proof -
  have "\<lfloor>x\<rfloor> + 1 \<le> \<lceil>x\<rceil>" if "x \<noteq> of_int \<lfloor>x\<rfloor>"
    using that by (metis ceiling_altdef le_less order_refl)
  moreover have "x \<noteq> of_int \<lfloor>x\<rfloor>" if "1 / 2 \<le> x - of_int \<lfloor>x\<rfloor>" using that by auto
  ultimately show ?thesis
    unfolding rint_def Let_def by (auto simp: floor_le_ceiling not_less)
qed

lemma rint_of_int [simp]: "rint (of_int n) = n"
  by (simp add: rint_def)


lemma rint_le: "x \<le> of_int b \<Longrightarrow> rint x \<le> b"
proof -
  assume "x \<le> of_int b"
  hence "\<lceil>x\<rceil> \<le> b" by (simp add: ceiling_le_iff)
  thus "rint x \<le> b" using rint_bounds[of x] by linarith
qed

lemma astype_int_le: "n \<le> 10000 \<Longrightarrow> astype_int n \<le> 10000"
  by (simp add: astype_int_def int_min_def)


lemma np_power_unit:
  assumes "0 \<le> x" "x \<le> 1" "0 \<le> t"
  shows "\<exists>s. np_power x t = Some s \<and> 0 \<le> s \<and> s \<le> 1 \<and> (0 < t \<longrightarrow> s = x powr t)"
proof -
  have "x powr t \<le> 1" using assms by (intro powr_le1) auto
  thus ?thesis using assms by (auto simp: np_power_def)
qed

lemma np_power_neg:
  assumes "0 \<le> x" "x \<le> 1" "t < 0" "np_power x t = Some s"
  shows "1 \<le> s"
proof -
  have "0 < x" using assms by (auto simp: np_power_def split: if_splits)
  hence "s = x powr t" using assms by (auto simp: np_power_def)
  moreover have "1 powr t \<le> x powr t" using assms \<open>0 < x\<close> by (intro powr_mono2') auto
  ultimately show ?thesis by simp
qed

lemma rate_code_le:
  assumes "0 \<le> wd" "wd \<le> wfo" "0 < wfo"
  shows "rate_code wd wfo t \<le> 10000"
proof -
  let ?p = "wd / wfo"
  have p: "0 \<le> 1 - ?p" "1 - ?p \<le> 1" using assms by simp_all
  have d: "np_divide wd wfo = Some ?p" using assms by (simp add: np_divide_def)
  show ?thesis
  proof (cases "np_power (1 - ?p) t")
    case None
    then show ?thesis by (simp add: rate_code_def d int_min_def)
  next
    case (Some s)
    have "0 \<le> s"
    proof (cases "0 \<le> t")
      case True
      thus ?thesis using np_power_unit[OF p True] Some by auto
    next
      case False
      thus ?thesis using np_power_neg[OF p _ Some] by simp
    qed
    hence "10000 * (1 - s) \<le> of_int 10000" by simp
    hence "rint (10000 * (1 - s)) \<le> 10000" by (rule rint_le)
    then show ?thesis by (simp add: rate_code_def d Some astype_int_le)
  qed
qed



subsection \<open>The output of a block\<close>

lemma out_cell_sentinel_iff:
  assumes "rectangular in_data n" "r < length in_data" "c < n"
  shows "out_cell in_data win_size t r c = 65535 \<longleftrightarrow> \<not> 0 < in_data ! r ! c"
proof (cases "0 < in_data ! r ! c")
  case True
  have "rate_code (win_defor in_data win_size ! r ! c) (win_for in_data win_size ! r ! c) t \<le> 10000"
    using win_defor_nonneg[OF assms] win_defor_le_win_for[OF assms] win_for_pos[OF assms True]
    by (rule rate_code_le)
  then show ?thesis using True by (simp add: out_cell_def)
next
  case False
  then show ?thesis by (simp add: out_cell_def)
qed

text \<open>
  Claim C2, as stated: a cell whose forest density \<open>win_for\<close> is positive holds a rate
  code, whatever its own class. In the block of 3 rows and 3 columns whose centre cell is
  0 (no data) and whose other cells are 3 (forest), with a window of 3 cells, the centre
  cell has \<open>win_for = 8/9\<close> and the output there is the sentinel 65535.
\<close>

theorem sentinel_beside_forest:
  "win_for [[3, 3, 3], [3, 0, 3], [3, 3, 3]] 3 ! 1 ! 1 = 8 / 9
   \<and> out_data [[3, 3, 3], [3, 0, 3], [3, 3, 3]] 3 5 ! 1 ! 1 = 65535"
proof -
  have "win_for [[3, 3, 3], [3, 0, 3], [3, 3, 3]] 3 ! 1 ! 1 = 8 / 9" by code_simp
  moreover have "out_data [[3, 3, 3], [3, 0, 3], [3, 3, 3]] 3 5 ! 1 ! 1 = 65535"
    by (simp add: out_data_def out_cell_def)
  ultimately show ?thesis by simp
qed

text \<open>
  Claim C2, amended: the output of a cell is a rate code exactly when the cell's own class
  is positive (the cells of \<open>w = np.where(in_data > 0)\<close>): such a cell holds the rate code
  of its two window means, which is never 65535, and its forest density is positive; a cell
  whose own class is 0 holds the sentinel 65535, whatever its forest density.
\<close>

theorem defined_on_own_class:
  assumes "rectangular in_data n" "r < length in_data" "c < n"
  shows "(0 < in_data ! r ! c \<longrightarrow>
            out_data in_data win_size time_interval ! r ! c =
              rate_code (win_defor in_data win_size ! r ! c) (win_for in_data win_size ! r ! c)
                time_interval
            \<and> out_data in_data win_size time_interval ! r ! c \<noteq> 65535
            \<and> 0 < win_for in_data win_size ! r ! c)
       \<and> (in_data ! r ! c \<le> 0 \<longrightarrow> out_data in_data win_size time_interval ! r ! c = 65535)"
proof -
  have c: "c < length (in_data ! r)" using assms by (simp add: rectangular_nth)
  show ?thesis
    using out_cell_sentinel_iff[OF assms, of win_size time_interval] win_for_pos[OF assms]
    by (auto simp: nth_out_data[OF assms(2) c] out_cell_def)
qed

text \<open>
  Claim C2, witness: the centre cell (class 1) of a block of 3 rows and 3 columns.
\<close>

theorem defined_on_own_class_witness:
  "rectangular [[3, 3, 3], [3, 1, 3], [3, 3, 3::int]] 3 \<and> (1::nat) < length [[3, 3, 3], [3, 1, 3], [3, 3, 3::int]]
   \<and> (1::nat) < 3 \<and> (0::int) < [[3, 3, 3], [3, 1, 3], [3, 3, 3]] ! 1 ! 1
   \<and> out_data [[3, 3, 3], [3, 1, 3], [3, 3, 3]] 3 5 ! 1 ! 1 \<noteq> 65535"
  using defined_on_own_class [of "[[3, 3, 3], [3, 1, 3], [3, 3, 3]]" 3 1 1 3 5]
  by (simp add: rectangular_def)

text \<open>
  Claim C4: a cell whose forest density \<open>win_for\<close> is 0 holds the sentinel 65535; the
  statement holds for every block, hence whatever \<open>win_defor\<close> is at the cell, and the output
  is a value of the array, not an error.
\<close>

theorem no_forest_gives_sentinel:
  assumes "rectangular in_data n" "r < length in_data" "c < n"
    and "win_for in_data win_size ! r ! c = 0"
  shows "out_data in_data win_size time_interval ! r ! c = 65535"
proof -
  have c: "c < length (in_data ! r)" using assms by (simp add: rectangular_nth)
  have "\<not> 0 < in_data ! r ! c" using win_for_pos[OF assms(1-3), of win_size] assms(4) by auto
  thus ?thesis by (simp add: nth_out_data[OF assms(2) c] out_cell_def)
qed

text \<open>
  Claim C4, witness: the third cell of the row \<open>0 1 0 3\<close> with a window of one cell.
\<close>

theorem no_forest_gives_sentinel_witness:
  "rectangular [[0, 1, 0, 3::int]] 4 \<and> (0::nat) < length [[0, 1, 0, 3::int]] \<and> (2::nat) < 4
   \<and> win_for [[0, 1, 0, 3]] 1 ! 0 ! 2 = 0
   \<and> out_data [[0, 1, 0, 3]] 1 5 ! 0 ! 2 = 65535"
proof -
  have w: "win_for [[0, 1, 0, 3]] 1 ! 0 ! 2 = 0" by code_simp
  have r: "rectangular [[0, 1, 0, 3::int]] 4" by (simp add: rectangular_def)
  show ?thesis using no_forest_gives_sentinel [OF r _ _ w, of 5] w r by simp
qed

text \<open>
  Claim C8: the quotient \<open>win_defor / win_for\<close> is evaluated at the cells of \<open>w\<close> only, the
  cells whose own class is positive (see \<open>out_cell\<close>). At such a cell the forest density is
  at least \<open>1 / win_size\<^sup>2\<close>, so it is positive and the division is not a division by zero.
\<close>

theorem division_is_guarded:
  assumes "rectangular in_data n" "r < length in_data" "c < n"
    and "0 < in_data ! r ! c" "1 \<le> win_size"
  shows "1 / of_int (win_size * win_size) \<le> win_for in_data win_size ! r ! c
       \<and> 0 < win_for in_data win_size ! r ! c
       \<and> np_divide (win_defor in_data win_size ! r ! c) (win_for in_data win_size ! r ! c)
           = Some (win_defor in_data win_size ! r ! c / win_for in_data win_size ! r ! c)"
  using win_for_centre[OF assms] win_for_pos[OF assms(1-4), of win_size]
  by (simp add: np_divide_def)

text \<open>
  Claim C8, witness: a single forest cell (class 2) in the middle of a block without data.
\<close>

theorem division_is_guarded_witness:
  "rectangular [[0, 0, 0], [0, 2, 0], [0, 0, 0::int]] 3 \<and> (1::nat) < length [[0, 0, 0], [0, 2, 0], [0, 0, 0::int]]
   \<and> (1::nat) < 3 \<and> (0::int) < [[0, 0, 0], [0, 2, 0], [0, 0, 0]] ! 1 ! 1 \<and> (1::int) \<le> 3
   \<and> 1 / 9 \<le> win_for [[0, 0, 0], [0, 2, 0], [0, 0, 0]] 3 ! 1 ! 1"
  using division_is_guarded [of "[[0, 0, 0], [0, 2, 0], [0, 0, 0]]" 3 1 1 3]
  by (simp add: rectangular_def)





subsection \<open>The moving-window mean as a count\<close>

lemma window_sum_as_set_sum:
  "window_sum A n f r c =
     (\<Sum>(j, i) \<in> {c - f div 2 .. c + (f - f div 2 - 1)} \<times> {r - f div 2 .. r + (f - f div 2 - 1)}.
        at2 A n i j)"
  by (simp add: window_sum_def sum_list_distinct_conv_sum_set sum.cartesian_product)

lemma ones_in_window_card:
  "ones_in_window A f r c =
     card {(i, j). i < length A \<and> j < ncols A \<and> \<bar>int i - int r\<bar> \<le> f div 2
                  \<and> \<bar>int j - int c\<bar> \<le> f div 2 \<and> A ! i ! j = 1}"
proof -
  let ?xs = "filter (\<lambda>(i, j). A ! i ! j = 1) (window_cells (length A) (ncols A) f r c)"
  have "distinct ?xs" by (simp add: window_cells_def distinct_product)
  hence "length ?xs = card (set ?xs)" by (rule distinct_card[symmetric])
  moreover have "set ?xs = {(i, j). i < length A \<and> j < ncols A \<and> \<bar>int i - int r\<bar> \<le> f div 2
                  \<and> \<bar>int j - int c\<bar> \<le> f div 2 \<and> A ! i ! j = 1}"
    by (auto simp: window_cells_def)
  ultimately show ?thesis by (simp add: ones_in_window_def)
qed

lemma window_sum_count:
  assumes "rectangular A n" "r < length A" "binary A" "1 \<le> f" "f mod 2 = 1"
  shows "window_sum A n f (int r) (int c) = real (ones_in_window A f r c)"
proof -
  define h where "h = f div 2"
  have "f = 2 * (f div 2) + f mod 2" by simp
  hence h: "f - h - 1 = h" using assms(5) unfolding h_def by linarith
  have nc: "ncols A = n" using assms(1,2) by (cases A) (simp_all add: rectangular_def ncols_def)
  define T where "T = {(i, j). i < length A \<and> j < n \<and> \<bar>int i - int r\<bar> \<le> h
                  \<and> \<bar>int j - int c\<bar> \<le> h \<and> A ! i ! j = 1}"
  define W where "W = {int c - h .. int c + h} \<times> {int r - h .. int r + h}"
  define S where "S = {(j, i). (j, i) \<in> W \<and> 0 \<le> i \<and> i < int (length A) \<and> 0 \<le> j \<and> j < int n
                      \<and> A ! nat i ! nat j = 1}"
  have bin: "A ! i ! j = 0 \<or> A ! i ! j = 1" if "i < length A" "j < n" for i j
    using assms(3) that rectangular_nth[OF assms(1) that(1)]
    by (simp add: binary_def list_all_length)
  have at: "at2 A n i j = (if (j, i) \<in> S then 1 else 0)" if "(j, i) \<in> W" for i j
  proof (cases "0 \<le> i \<and> i < int (length A) \<and> 0 \<le> j \<and> j < int n")
    case True
    hence "nat i < length A" "nat j < n" by linarith+
    from bin[OF this] show ?thesis using True that by (auto simp: at2_def S_def)
  next
    case False
    then show ?thesis by (auto simp: at2_def S_def)
  qed
  have fin: "finite W" by (simp add: W_def)
  have SW: "S \<subseteq> W" by (auto simp: S_def)
  have "window_sum A n f (int r) (int c) = (\<Sum>(j, i) \<in> W. at2 A n i j)"
    by (simp add: window_sum_as_set_sum W_def h_def[symmetric] h)
  also have "\<dots> = (\<Sum>x \<in> W. if x \<in> S then 1 else 0)"
    by (intro sum.cong refl) (auto simp: at)
  also have "\<dots> = real (card S)"
    using fin SW by (simp add: sum.If_cases Int_absorb1)
  also have "card S = card T"
  proof (rule bij_betw_same_card[symmetric])
    show "bij_betw (\<lambda>(i, j). (int j, int i)) T S"
      unfolding bij_betw_def
    proof
      show "inj_on (\<lambda>(i, j). (int j, int i)) T" by (auto simp: inj_on_def)
      show "(\<lambda>(i, j). (int j, int i)) ` T = S"
      proof (rule set_eqI)
        fix x :: "int \<times> int"
        obtain j i where x: "x = (j, i)" by (cases x)
        show "x \<in> (\<lambda>(i, j). (int j, int i)) ` T \<longleftrightarrow> x \<in> S"
        proof
          assume "x \<in> (\<lambda>(i, j). (int j, int i)) ` T"
          then obtain i' j' where "(i', j') \<in> T" "i = int i'" "j = int j'" using x by auto
          thus "x \<in> S" unfolding x S_def T_def W_def by auto
        next
          assume "x \<in> S"
          hence "(nat i, nat j) \<in> T" "i = int (nat i)" "j = int (nat j)"
            unfolding x S_def T_def W_def by auto
          thus "x \<in> (\<lambda>(i, j). (int j, int i)) ` T" unfolding x by force
        qed
      qed
    qed
  qed
  also have "card T = ones_in_window A f r c"
    by (simp add: ones_in_window_card T_def nc h_def)
  finally show ?thesis .
qed

text \<open>
  Claim C6: for a binary mask and an odd window size, the moving-window mean at a cell is
  the number of 1-valued cells of the array that lie in the window centred on the cell,
  divided by \<open>win_size\<^sup>2\<close>: the window is padded with zeros and the denominator is the full
  window area, also at the edges and corners of the array.
\<close>

theorem focal_density_zero_padded:
  assumes "rectangular A n" "r < length A" "c < n" "binary A" "1 \<le> win_size" "win_size mod 2 = 1"
  shows "uniform_filter A win_size ! r ! c =
           real (ones_in_window A win_size r c) / real_of_int (win_size * win_size)"
  using nth_uniform_filter_pos[OF assms(1-3,5)] window_sum_count[OF assms(1,2,4,5,6), of c]
  by simp

text \<open>
  Claim C6, witness: the corner cell of a mask of 3 rows and 3 columns that is 1 everywhere,
  with a window of 3 cells: four cells of the window lie in the array and the mean is 4/9.
\<close>

theorem focal_density_zero_padded_witness:
  "rectangular [[1, 1, 1], [1, 1, 1], [1, 1, 1::int]] 3
   \<and> (0::nat) < length [[1, 1, 1], [1, 1, 1], [1, 1, 1::int]] \<and> (0::nat) < 3
   \<and> binary [[1, 1, 1], [1, 1, 1], [1, 1, 1]] \<and> (1::int) \<le> 3 \<and> (3::int) mod 2 = 1
   \<and> ones_in_window [[1, 1, 1], [1, 1, 1], [1, 1, 1]] 3 0 0 = 4
   \<and> uniform_filter [[1, 1, 1], [1, 1, 1], [1, 1, 1]] 3 ! 0 ! 0 = 4 / 9"
proof -
  have r: "rectangular [[1, 1, 1], [1, 1, 1], [1, 1, 1::int]] 3" by (simp add: rectangular_def)
  have b: "binary [[1, 1, 1], [1, 1, 1], [1, 1, 1]]" by (simp add: binary_def)
  have n: "ones_in_window [[1, 1, 1], [1, 1, 1], [1, 1, 1]] 3 0 0 = 4" by code_simp
  show ?thesis
    using focal_density_zero_padded [OF r _ _ b, of 0 0 3] r b n by simp
qed

subsection \<open>A block against the whole grid\<close>

lemma upto_shift: "[a + y .. b + y] = map (\<lambda>i. i + y) [a .. b]"
  by (rule nth_equalityI) simp_all

lemma sum_list_upto_shift:
  "(\<Sum>i\<leftarrow>[a + y .. b + y]. g i) = (\<Sum>i\<leftarrow>[a .. b]. g (i + y))"
  by (simp add: upto_shift o_def)

lemma masks_take_drop:
  "for_data (take m (drop y D)) = take m (drop y (for_data D))"
  "defor_data (take m (drop y D)) = take m (drop y (defor_data D))"
  by (simp_all add: for_data_def defor_data_def take_map drop_map)

lemma at2_block:
  assumes "y + m \<le> length A" "y = 0 \<or> 0 \<le> i" "y + m = length A \<or> i < int m"
  shows "at2 (take m (drop y A)) n i j = at2 A n (i + int y) j"
proof (cases "0 \<le> i \<and> i < int m")
  case True
  hence "nat i < m" "nat (i + int y) = y + nat i" by linarith+
  thus ?thesis using True assms(1) by (simp add: at2_def)
next
  case False
  hence "i + int y < 0 \<or> int (length A) \<le> i + int y" using assms by linarith
  thus ?thesis using False assms(1) by (auto simp: at2_def)
qed

lemma window_sum_block:
  assumes "y + m \<le> length A" "y = 0 \<or> f div 2 \<le> k"
    "y + m = length A \<or> k + (f - f div 2 - 1) < int m"
  shows "window_sum (take m (drop y A)) n f k c = window_sum A n f (k + int y) c"
proof -
  let ?rs = "[k - f div 2 .. k + (f - f div 2 - 1)]"
  have "(\<Sum>i\<leftarrow>?rs. at2 (take m (drop y A)) n i j) = (\<Sum>i\<leftarrow>?rs. at2 A n (i + int y) j)" for j
  proof (rule arg_cong[where f = sum_list], rule map_cong[OF refl])
    fix i assume "i \<in> set ?rs"
    hence "k - f div 2 \<le> i" "i \<le> k + (f - f div 2 - 1)" by simp_all
    thus "at2 (take m (drop y A)) n i j = at2 A n (i + int y) j"
      using assms(2,3) by (intro at2_block[OF assms(1)]) auto
  qed
  moreover have "[k + int y - f div 2 .. k + int y + (f - f div 2 - 1)]
      = [k - f div 2 + int y .. k + (f - f div 2 - 1) + int y]"
    by (simp add: algebra_simps)
  ultimately show ?thesis
    unfolding window_sum_def by (simp only: sum_list_upto_shift)
qed

lemma rectangular_take_drop: "rectangular A n \<Longrightarrow> rectangular (take m (drop y A)) n"
  unfolding rectangular_def list_all_iff by (auto dest!: in_set_takeD in_set_dropD)

lemma uniform_filter_block:
  assumes "rectangular A n" "y + m \<le> length A" "k < m" "c < n" "1 \<le> f"
    and "y = 0 \<or> f div 2 \<le> int k" "y + m = length A \<or> int k + (f - f div 2 - 1) < int m"
  shows "uniform_filter (take m (drop y A)) f ! k ! c = uniform_filter A f ! (y + k) ! c"
proof -
  have B: "rectangular (take m (drop y A)) n" "k < length (take m (drop y A))"
    using assms(1-3) by (simp_all add: rectangular_take_drop)
  have G: "y + k < length A" using assms(2,3) by simp
  have "uniform_filter (take m (drop y A)) f ! k ! c
      = window_sum (take m (drop y A)) n f (int k) (int c) / of_int (f * f)"
    using B assms(4,5) by (rule nth_uniform_filter_pos)
  also have "window_sum (take m (drop y A)) n f (int k) (int c)
      = window_sum A n f (int k + int y) (int c)"
    using assms(2,6,7) by (rule window_sum_block)
  also have "int k + int y = int (y + k)" by simp
  also have "window_sum A n f (int (y + k)) (int c) / of_int (f * f)
      = uniform_filter A f ! (y + k) ! c"
    using nth_uniform_filter_pos[OF assms(1) G assms(4,5)] by simp
  finally show ?thesis .
qed

lemma out_cell_block:
  assumes "rectangular G n" "y + m \<le> length G" "k < m" "c < n" "1 \<le> f"
    and "y = 0 \<or> f div 2 \<le> int k" "y + m = length G \<or> int k + (f - f div 2 - 1) < int m"
  shows "out_cell (take m (drop y G)) f t k c = out_cell G f t (y + k) c"
proof -
  have v: "take m (drop y G) ! k ! c = G ! (y + k) ! c" using assms(2,3) by simp
  have "win_for (take m (drop y G)) f ! k ! c = win_for G f ! (y + k) ! c"
    unfolding win_for_def masks_take_drop
    using assms by (intro uniform_filter_block[where n = n]) simp_all
  moreover have "win_defor (take m (drop y G)) f ! k ! c = win_defor G f ! (y + k) ! c"
    unfolding win_defor_def masks_take_drop
    using assms by (intro uniform_filter_block[where n = n]) simp_all
  ultimately show ?thesis by (simp add: out_cell_def v)
qed

lemma out_data_row_block:
  assumes "rectangular G n" "y + m \<le> length G" "k < m" "1 \<le> f"
    and "y = 0 \<or> f div 2 \<le> int k" "y + m = length G \<or> int k + (f - f div 2 - 1) < int m"
  shows "out_data (take m (drop y G)) f t ! k = out_data G f t ! (y + k)"
proof -
  have l: "length (take m (drop y G) ! k) = n" "length (G ! (y + k)) = n"
    using assms(1-3) by (simp_all add: rectangular_nth)
  have "out_data (take m (drop y G)) f t ! k =
        map (\<lambda>c. out_cell (take m (drop y G)) f t k c) [0..<n]"
    using assms(2,3) l by (simp add: out_data_def)
  also have "\<dots> = map (\<lambda>c. out_cell G f t (y + k) c) [0..<n]"
    using out_cell_block[OF assms(1-3) _ assms(4-6)] by simp
  also have "\<dots> = out_data G f t ! (y + k)"
    using assms(2,3) l by (simp add: out_data_def)
  finally show ?thesis .
qed

subsection \<open>The loop over the blocks\<close>

lemma length_out_data [simp]: "length (out_data D f t) = length D"
  by (simp add: out_data_def)

lemma done_upto_mono:
  assumes "done_upto G f t i w" "\<And>r. r < length G \<Longrightarrow> int r < j \<Longrightarrow> int r < i"
  shows "done_upto G f t j w"
  using assms unfolding done_upto_def by blast

lemma block_step_generic:
  assumes rect: "rectangular G n" and f: "1 \<le> f"
    and w: "out_band w = Some band" "length band = length G" "raised w = None"
    and rd: "yoff f i = int y" "rows (int (length G)) blk f i = int m" "0 < m" "y + m \<le> length G"
    and wr: "written f i (out_data (take m (drop y G)) f t)
              = (drop d (out_data (take m (drop y G)) f t), int (y + d))"
    and d: "d \<le> hi" "hi \<le> m"
    and low: "\<And>r. r < y + d \<Longrightarrow> band ! r = Some (out_data G f t ! r)"
    and top: "y = 0 \<or> f div 2 \<le> int d"
    and bot: "y + m = length G \<or> int hi + (f - f div 2 - 1) \<le> int m"
  shows "done_upto G f t (int (y + hi)) (block_step G f t blk i w)"
proof -
  let ?od = "out_data (take m (drop y G)) f t"
  let ?band = "take (y + d) band @ map Some (drop d ?od) @ drop (y + d + (m - d)) band"
  have lod: "length ?od = m" using rd(4) by simp
  have R: "ReadAsArray G (int y) (int m) = Some (take m (drop y G))"
    using rd(3,4) by (simp add: ReadAsArray_def)
  have W: "WriteArray band (drop d ?od) (int y + int d) = Some ?band"
    using rd(4) d w(2) lod by (simp add: WriteArray_def nat_int_add)
  have step: "block_step G f t blk i w =
      w\<lparr>io_log := io_log w @ [Read (int y) (int m), Write (int (y + d)) (m - d)],
        out_band := Some ?band\<rparr>"
    using lod by (simp add: block_step_def Let_def rd(1,2) R wr w(1) W del: length_out_data)
  have len: "length ?band = length G" using rd(4) d w(2) lod by simp
  have row: "?band ! r = Some (out_data G f t ! r)" if r: "r < length G" "r < y + hi" for r
  proof (cases "r < y + d")
    case True
    hence "?band ! r = band ! r" using w(2) r(1) by (simp add: nth_append)
    thus ?thesis using low[OF True] by simp
  next
    case False
    define k where "k = r - y"
    have k: "d \<le> k" "k < hi" "y + k = r" using False r(2) by (auto simp: k_def)
    have l1: "length (take (y + d) band) = y + d" using w(2) rd(4) d by simp
    have l2: "r - (y + d) < length (map Some (drop d ?od))"
      using False r(2) d lod by (simp del: length_out_data)
    have "?band ! r = (map Some (drop d ?od) @ drop (y + d + (m - d)) band) ! (r - (y + d))"
      using False by (simp only: nth_append l1 if_False)
    also have "\<dots> = map Some (drop d ?od) ! (r - (y + d))"
      using l2 by (simp only: nth_append if_True)
    also have "\<dots> = Some (?od ! (d + (r - (y + d))))"
      using l2 lod by (simp del: length_out_data)
    also have "d + (r - (y + d)) = k" using False by (simp add: k_def)
    finally have "?band ! r = Some (?od ! k)" .
    also have "?od ! k = out_data G f t ! (y + k)"
    proof (rule out_data_row_block[OF rect rd(4) _ f])
      show "k < m" using k d by simp
      show "y = 0 \<or> f div 2 \<le> int k" using top k by auto
      show "y + m = length G \<or> int k + (f - f div 2 - 1) < int m" using bot k by auto
    qed
    finally show ?thesis by (simp only: k(3))
  qed
  show ?thesis
    unfolding done_upto_def step using w(3) len row by simp
qed

lemma block_step_done:
  assumes rect: "rectangular G n" and vc: "valid_config (int (length G)) blk f"
    and tall: "blk + 2 * extra_lines f - 1 < int (length G)"
    and i: "0 \<le> i" "i < int (length G)" "i mod blk = 0"
    and inv: "done_upto G f t i w"
  shows "done_upto G f t (i + blk) (block_step G f t blk i w)"
proof -
  note e = extra_lines_bounds[OF vc]
  have f: "1 \<le> f" using vc by (simp add: valid_config_def)
  have h: "f div 2 = extra_lines f" "f - f div 2 - 1 = extra_lines f"
    using e(2) by (simp_all add: extra_lines_def)
  define e' i' b' where "e' = nat (extra_lines f)" "i' = nat i" "b' = nat blk"
  have n: "extra_lines f = int e'" "i = int i'" "blk = int b'"
    using e i(1) by (simp_all add: e'_i'_b'_def)
  from inv obtain band where w: "out_band w = Some band" "length band = length G" "raised w = None"
    and low: "\<And>r. r < length G \<Longrightarrow> int r < i \<Longrightarrow> band ! r = Some (out_data G f t ! r)"
    unfolding done_upto_def by blast
  have wr: "written f i od = (if yoff f i = 0 then (od, 0)
       else (drop e' od, yoff f i + int e'))" for od :: "int list list"
    by (simp add: written_def slice_from_def n(1))
  consider (first) "i = 0" | (mid) "0 < i" "i + blk + 2 * extra_lines f - 1 < int (length G)"
    | (last) "0 < i" "\<not> i + blk + 2 * extra_lines f - 1 < int (length G)"
    using i(1) by linarith
  then show ?thesis
  proof cases
    case first
    have "done_upto G f t (int (0 + b')) (block_step G f t blk i w)"
    proof (rule block_step_generic[OF rect f w, where m = "b' + 2 * e'" and d = 0])
      show "yoff f i = int 0" using first e(1) by (simp add: yoff_def)
      show "rows (int (length G)) blk f i = int (b' + 2 * e')"
        using first tall by (simp add: rows_def n)
      show "0 < b' + 2 * e'" using e(4) n by simp
      show "0 + (b' + 2 * e') \<le> length G" using tall n by simp
      show "written f i (out_data (take (b' + 2 * e') (drop 0 G)) f t) =
        (drop 0 (out_data (take (b' + 2 * e') (drop 0 G)) f t), int (0 + 0))"
        unfolding wr using first e(1) by (simp add: yoff_def)
    qed (use n h in simp_all)
    thus ?thesis using first n by simp
  next
    case mid
    have bi: "b' \<le> i'" using mid(1) i(3) e(4) n
      by (metis less_le_not_le mod_pos_pos_trivial not_le_imp_less of_nat_le_iff i(1))
    have ei: "e' < i'" using bi e(3) n by linarith
    have "done_upto G f t (int ((i' - e') + (e' + b'))) (block_step G f t blk i w)"
    proof (rule block_step_generic[OF rect f w, where m = "b' + 2 * e'" and d = e'])
      show y: "yoff f i = int (i' - e')" using ei by (simp add: yoff_def n)
      show "rows (int (length G)) blk f i = int (b' + 2 * e')"
        using mid by (simp add: rows_def n)
      show "0 < b' + 2 * e'" using e(4) n by simp
      show "i' - e' + (b' + 2 * e') \<le> length G" using mid(2) ei n by simp
      show "written f i (out_data (take (b' + 2 * e') (drop (i' - e') G)) f t) =
        (drop e' (out_data (take (b' + 2 * e') (drop (i' - e') G)) f t), int (i' - e' + e'))"
        using ei by (simp add: wr y)
      show "band ! r = Some (out_data G f t ! r)" if "r < i' - e' + e'" for r
        using that low[of r] mid(2) ei n by simp
      show "i' - e' + (b' + 2 * e') = length G \<or>
        int (e' + b') + (f - f div 2 - 1) \<le> int (b' + 2 * e')" using h n by simp
    qed (use n h in simp_all)
    thus ?thesis using ei n by (simp add: add.commute)
  next
    case last
    have bi: "b' \<le> i'" using last(1) i(3) e(4) n
      by (metis less_le_not_le mod_pos_pos_trivial not_le_imp_less of_nat_le_iff i(1))
    have ei: "e' < i'" using bi e(3) n by linarith
    have iG: "i' < length G" using i(2) n by simp
    have "done_upto G f t (int ((i' - e') + (length G - i' + e'))) (block_step G f t blk i w)"
    proof (rule block_step_generic[OF rect f w, where m = "length G - i' + e'" and d = e'])
      show y: "yoff f i = int (i' - e')" using ei by (simp add: yoff_def n)
      show "rows (int (length G)) blk f i = int (length G - i' + e')"
        using last iG by (simp add: rows_def n)
      show "0 < length G - i' + e'" using iG by simp
      show "i' - e' + (length G - i' + e') \<le> length G" using iG ei by simp
      show "written f i (out_data (take (length G - i' + e') (drop (i' - e') G)) f t) =
        (drop e' (out_data (take (length G - i' + e') (drop (i' - e') G)) f t), int (i' - e' + e'))"
        using ei by (simp add: wr y)
      show "band ! r = Some (out_data G f t ! r)" if "r < i' - e' + e'" for r
        using that low[of r] iG ei n by simp
      show "i' - e' + (length G - i' + e') = length G \<or>
        int (length G - i' + e') + (f - f div 2 - 1) \<le> int (length G - i' + e')"
        using iG ei by simp
    qed (use n h in simp_all)
    hence "done_upto G f t (int (length G)) (block_step G f t blk i w)"
      using iG ei by simp
    thus ?thesis by (rule done_upto_mono) simp
  qed
qed

lemma blocks_loop_done:
  assumes rect: "rectangular G n" and vc: "valid_config (int (length G)) blk f"
    and tall: "blk + 2 * extra_lines f - 1 < int (length G)"
  shows "0 \<le> i \<Longrightarrow> i mod blk = 0 \<Longrightarrow> done_upto G f t i w \<Longrightarrow>
    done_upto G f t (int (length G))
      (blocks_loop G f t blk (range_from i (int (length G)) blk) w)"
proof (induction "nat (int (length G) - i)" arbitrary: i w rule: less_induct)
  case less
  note B = extra_lines_bounds(4)[OF vc]
  show ?case
  proof (cases "i < int (length G)")
    case False
    hence "range_from i (int (length G)) blk = []" by (subst range_from.simps) simp
    moreover have "done_upto G f t (int (length G)) w"
      using less.prems(3) by (rule done_upto_mono) (use False in simp)
    ultimately show ?thesis by simp
  next
    case True
    let ?w = "block_step G f t blk i w"
    have r: "range_from i (int (length G)) blk = i # range_from (i + blk) (int (length G)) blk"
      using True B by (subst range_from.simps) simp
    have d: "done_upto G f t (i + blk) ?w"
      using rect vc tall less.prems(1) True less.prems(2,3) by (rule block_step_done)
    hence ok: "raised ?w = None" by (simp add: done_upto_def)
    have "done_upto G f t (int (length G))
      (blocks_loop G f t blk (range_from (i + blk) (int (length G)) blk) ?w)"
    proof (rule less.hyps)
      show "nat (int (length G) - (i + blk)) < nat (int (length G) - i)" using True B by simp
      show "0 \<le> i + blk" using less.prems(1) B by simp
      show "(i + blk) mod blk = 0" using less.prems(2) by simp
      show "done_upto G f t (i + blk) ?w" by (rule d)
    qed
    thus ?thesis by (simp add: r ok)
  qed
qed

lemma done_upto_all:
  assumes "done_upto G f t (int (length G)) w"
  shows "raised w = None \<and> out_band w = Some (map Some (out_data G f t))"
proof -
  from assms obtain band where b: "out_band w = Some band" "length band = length G"
    "\<And>r. r < length G \<Longrightarrow> band ! r = Some (out_data G f t ! r)" and r: "raised w = None"
    unfolding done_upto_def by auto
  have "band = map Some (out_data G f t)"
    by (rule nth_equalityI) (simp_all add: b)
  thus ?thesis using b(1) r by simp
qed

text \<open>
  Claim C10: for a valid configuration on a grid so tall that the first block is not the
  last one, the run ends without error and the output band, once the blocks have been
  written one after the other in increasing row order, is the result of the single pass
  over the whole grid. A row that a block computed next to the bottom edge of its read
  window is written again by the next block.
\<close>

theorem blocking_is_transparent:
  assumes "rectangular in_band xsize"
    and "valid_config (int (length in_band)) blk_rows win_size"
    and "blk_rows + 2 * (win_size div 2) - 1 < int (length in_band)"
  shows "raised (local_defor_rate in_band win_size time_interval blk_rows) = None
       \<and> out_band (local_defor_rate in_band win_size time_interval blk_rows)
           = Some (map Some (single_pass in_band win_size time_interval))"
proof -
  note e = extra_lines_bounds[OF assms(2)]
  let ?w = "start_world\<lparr>out_band := Some (replicate (length in_band) None)\<rparr>"
  have v: "win_size mod 2 \<noteq> 0" "\<not> blk_rows < win_size" "blk_rows \<noteq> 0"
    using assms(2) by (auto simp: valid_config_def)
  have run: "local_defor_rate in_band win_size time_interval blk_rows =
      blocks_loop in_band win_size time_interval blk_rows
        (range_from 0 (int (length in_band)) blk_rows) ?w"
    using v by (simp add: local_defor_rate_def)
  have "done_upto in_band win_size time_interval 0 ?w"
    by (simp add: done_upto_def start_world_def)
  hence "done_upto in_band win_size time_interval (int (length in_band))
      (blocks_loop in_band win_size time_interval blk_rows
        (range_from 0 (int (length in_band)) blk_rows) ?w)"
    using assms(3) by (intro blocks_loop_done[OF assms(1,2)]) (simp_all add: extra_lines_def)
  thus ?thesis unfolding run single_pass_def by (rule done_upto_all)
qed

text \<open>
  Claim C10, witness: a grid of 6 rows and one column, blocks of 3 rows, a window of 3
  cells: two blocks, the first one reading the rows 0 to 4 and writing them, the second
  one reading the rows 2 to 5 and writing the rows 3 to 5.
\<close>

theorem blocking_is_transparent_witness:
  "rectangular [[1], [3], [0], [3], [3], [1::int]] 1
   \<and> valid_config (int (length [[1], [3], [0], [3], [3], [1::int]])) 3 3
   \<and> (3::int) + 2 * (3 div 2) - 1 < int (length [[1], [3], [0], [3], [3], [1::int]])
   \<and> io_log (local_defor_rate [[1], [3], [0], [3], [3], [1]] 3 1 3)
       = [Read 0 5, Write 0 5, Read 2 4, Write 3 3]
   \<and> raised (local_defor_rate [[1], [3], [0], [3], [3], [1]] 3 1 3) = None
   \<and> out_band (local_defor_rate [[1], [3], [0], [3], [3], [1]] 3 1 3)
       = Some (map Some (single_pass [[1], [3], [0], [3], [3], [1]] 3 1))"
proof -
  have "io_log (local_defor_rate [[1], [3], [0], [3], [3], [1]] 3 1 3)
      = [Read 0 5, Write 0 5, Read 2 4, Write 3 3]"
    by (simp add: local_defor_rate_def start_world_def range_from.simps block_step_def
        rows_def yoff_def extra_lines_def ReadAsArray_def WriteArray_def written_def
        slice_from_def Let_def)
  thus ?thesis
    using blocking_is_transparent [of "[[1], [3], [0], [3], [3], [1]]" 1 3 3 1]
    by (simp add: rectangular_def valid_config_def)
qed

subsection \<open>The rows written by a run\<close>

lemma distinct_range_from: "0 < step \<Longrightarrow> distinct (range_from a stop step)"
proof (induction a stop step rule: range_from.induct)
  case (1 i stop step)
  show ?case
  proof (cases "i < stop")
    case False
    then show ?thesis by (subst range_from.simps) simp
  next
    case True
    have "i \<notin> set (range_from (i + step) stop step)"
      using range_from_set[OF 1(2), of "i + step" stop] 1(2) by simp
    moreover have "distinct (range_from (i + step) stop step)" using 1 True by simp
    ultimately show ?thesis using True 1(2) by (subst range_from.simps) simp
  qed
qed

lemma write_ranges_append: "write_ranges (xs @ ys) = write_ranges xs @ write_ranges ys"
  by (induction xs rule: write_ranges.induct) simp_all

lemma write_ranges_blocks:
  "write_ranges (concat (map (\<lambda>i. [Read (y i) (m i), Write (t i) (n i)]) is))
     = map (\<lambda>i. (t i, t i + int (n i))) is"
  by (induction "is") simp_all

lemma block_step_eq:
  assumes w: "out_band w = Some band" "length band = length G"
    and rd: "yoff f i = int y" "rows (int (length G)) blk f i = int m" "0 < m" "y + m \<le> length G"
    and wr: "written f i (out_data (take m (drop y G)) f t)
              = (drop d (out_data (take m (drop y G)) f t), int (y + d))"
    and d: "d \<le> m"
  shows "block_step G f t blk i w =
      w\<lparr>io_log := io_log w @ [Read (int y) (int m), Write (int (y + d)) (m - d)],
        out_band := Some (take (y + d) band @ map Some (drop d (out_data (take m (drop y G)) f t))
                          @ drop (y + d + (m - d)) band)\<rparr>"
proof -
  let ?od = "out_data (take m (drop y G)) f t"
  let ?band = "take (y + d) band @ map Some (drop d ?od) @ drop (y + d + (m - d)) band"
  have lod: "length ?od = m" using rd(4) by simp
  have R: "ReadAsArray G (int y) (int m) = Some (take m (drop y G))"
    using rd(3,4) by (simp add: ReadAsArray_def)
  have W: "WriteArray band (drop d ?od) (int y + int d) = Some ?band"
    using rd(4) d w(2) lod by (simp add: WriteArray_def nat_int_add)
  show ?thesis
    using lod by (simp add: block_step_def Let_def rd(1,2) R wr w(1) W del: length_out_data)
qed

lemma block_step_log:
  assumes vc: "valid_config (int (length G)) blk f"
    and ok: "blk + 2 * extra_lines f - 1 < int (length G) \<or> f = 1"
    and i: "0 \<le> i" "i < int (length G)" "i mod blk = 0"
    and w: "out_band w = Some band" "length band = length G" "raised w = None"
  shows "\<exists>band'. length band' = length G
      \<and> block_step G f t blk i w =
          w\<lparr>io_log := io_log w @ [Read (yoff f i) (rows (int (length G)) blk f i),
                Write i (nat (yoff f i + rows (int (length G)) blk f i - i))],
            out_band := Some band'\<rparr>"
proof -
  note e = extra_lines_bounds[OF vc]
  have mem: "i \<in> set (range_from 0 (int (length G)) blk)"
    using range_from_set[OF e(4), of 0 "int (length G)"] i by simp
  have bi: "blk \<le> i" if "0 < i"
    using that i(3) e(4) by (metis less_le_not_le mod_pos_pos_trivial not_le_imp_less i(1))
  have "0 < i \<or> blk + 2 * extra_lines f - 1 < int (length G) \<or> f = 1" using ok by auto
  note r = read_inside_grid[OF vc mem this]
  define y m d where "y = nat (yoff f i)" "m = nat (rows (int (length G)) blk f i)"
    "d = (if yoff f i = 0 then 0 else nat (extra_lines f))"
  have y: "yoff f i = int y" and m: "rows (int (length G)) blk f i = int m"
    using r by (simp_all add: y_m_d_def)
  have m0: "0 < m" and ym: "y + m \<le> length G"
    using r y m by linarith+
  have erows: "extra_lines f \<le> rows (int (length G)) blk f i"
    using e i(2) by (simp add: rows_def)
  hence "nat (extra_lines f) \<le> nat (rows (int (length G)) blk f i)" by linarith
  hence dm: "d \<le> m" by (simp add: y_m_d_def)
  have yd: "int (y + d) = i"
  proof (cases "yoff f i = 0")
    case True
    hence "i \<le> extra_lines f" by (simp add: yoff_def)
    hence "i = 0" using bi e i(1) by (cases "0 < i") auto
    thus ?thesis using True by (simp add: y_m_d_def)
  next
    case False
    hence "yoff f i = i - extra_lines f" using r by (simp add: yoff_def max_def split: if_splits)
    thus ?thesis using False r e(1) by (simp add: y_m_d_def)
  qed
  have wr: "written f i od = (drop d od, int (y + d))" for od :: "int list list"
  proof (cases "yoff f i = 0")
    case True
    thus ?thesis using yd by (simp add: written_def y_m_d_def)
  next
    case False
    hence "yoff f i = i - extra_lines f" using r by (simp add: yoff_def max_def split: if_splits)
    thus ?thesis using False e(1) yd by (simp add: written_def slice_from_def y_m_d_def)
  qed
  let ?band = "take (y + d) band @ map Some (drop d (out_data (take m (drop y G)) f t))
                          @ drop (y + d + (m - d)) band"
  have st: "block_step G f t blk i w =
      w\<lparr>io_log := io_log w @ [Read (int y) (int m), Write (int (y + d)) (m - d)],
        out_band := Some ?band\<rparr>"
    using w(1,2) y m m0 ym wr dm by (rule block_step_eq)
  have len: "length ?band = length G" using ym dm w(2) by simp
  have n: "m - d = nat (yoff f i + rows (int (length G)) blk f i - i)"
    using y m yd dm by linarith
  show ?thesis using st len unfolding yd n y[symmetric] m[symmetric] by blast
qed

lemma blocks_loop_log:
  assumes vc: "valid_config (int (length G)) blk f"
    and ok: "blk + 2 * extra_lines f - 1 < int (length G) \<or> f = 1"
  shows "0 \<le> i \<Longrightarrow> i mod blk = 0 \<Longrightarrow> out_band w = Some band \<Longrightarrow> length band = length G
    \<Longrightarrow> raised w = None \<Longrightarrow>
    raised (blocks_loop G f t blk (range_from i (int (length G)) blk) w) = None
    \<and> io_log (blocks_loop G f t blk (range_from i (int (length G)) blk) w) =
        io_log w @ concat (map (\<lambda>i. [Read (yoff f i) (rows (int (length G)) blk f i),
                Write i (nat (yoff f i + rows (int (length G)) blk f i - i))])
              (range_from i (int (length G)) blk))"
proof (induction "nat (int (length G) - i)" arbitrary: i w band rule: less_induct)
  case less
  note B = extra_lines_bounds(4)[OF vc]
  show ?case
  proof (cases "i < int (length G)")
    case False
    hence "range_from i (int (length G)) blk = []" by (subst range_from.simps) simp
    thus ?thesis using less.prems(5) by simp
  next
    case True
    let ?w = "block_step G f t blk i w"
    have r: "range_from i (int (length G)) blk = i # range_from (i + blk) (int (length G)) blk"
      using True B by (subst range_from.simps) simp
    obtain band' where b: "length band' = length G"
      and st: "?w = w\<lparr>io_log := io_log w @ [Read (yoff f i) (rows (int (length G)) blk f i),
                Write i (nat (yoff f i + rows (int (length G)) blk f i - i))],
            out_band := Some band'\<rparr>"
      using block_step_log[OF vc ok less.prems(1) True less.prems(2,3,4,5)] by blast
    have ok': "raised ?w = None" "out_band ?w = Some band'"
      using less.prems(5) by (simp_all add: st)
    have IH: "raised (blocks_loop G f t blk (range_from (i + blk) (int (length G)) blk) ?w) = None
      \<and> io_log (blocks_loop G f t blk (range_from (i + blk) (int (length G)) blk) ?w) =
        io_log ?w @ concat (map (\<lambda>i. [Read (yoff f i) (rows (int (length G)) blk f i),
                Write i (nat (yoff f i + rows (int (length G)) blk f i - i))])
              (range_from (i + blk) (int (length G)) blk))"
    proof (rule less.hyps)
      show "nat (int (length G) - (i + blk)) < nat (int (length G) - i)" using True B by simp
      show "0 \<le> i + blk" using less.prems(1) B by simp
      show "(i + blk) mod blk = 0" using less.prems(2) by simp
    qed (use ok' b in simp_all)
    have "io_log ?w = io_log w @ [Read (yoff f i) (rows (int (length G)) blk f i),
                Write i (nat (yoff f i + rows (int (length G)) blk f i - i))]"
      by (simp add: st)
    thus ?thesis using IH ok'(1) by (simp add: r)
  qed
qed

lemma block_end_bounds:
  assumes vc: "valid_config ysize blk f"
    and ok: "blk + 2 * extra_lines f - 1 < ysize \<or> f = 1"
    and mem: "i \<in> set (range_from 0 ysize blk)"
  shows "i < yoff f i + rows ysize blk f i" "yoff f i + rows ysize blk f i \<le> ysize"
    "i + blk \<le> yoff f i + rows ysize blk f i \<or> yoff f i + rows ysize blk f i = ysize"
    "yoff f i + rows ysize blk f i \<le> i + blk + 2 * extra_lines f"
proof -
  note e = extra_lines_bounds[OF vc]
  have i: "0 \<le> i" "i < ysize" "i mod blk = 0"
    using mem range_from_set[OF e(4), of 0 ysize] by auto
  have bi: "i = 0 \<or> blk \<le> i"
    using i(3) e(4) by (metis less_le_not_le mod_pos_pos_trivial not_le_imp_less i(1))
  have e0: "extra_lines f = 0" if "f = 1" using that e(2) by simp
  show "i < yoff f i + rows ysize blk f i" using bi ok e e0 i(1,2) by (auto simp: yoff_def rows_def)
  show "yoff f i + rows ysize blk f i \<le> ysize" using bi ok e e0 i(1,2) by (auto simp: yoff_def rows_def)
  show "i + blk \<le> yoff f i + rows ysize blk f i \<or> yoff f i + rows ysize blk f i = ysize"
    using bi ok e e0 i(1,2) by (auto simp: yoff_def rows_def)
  show "yoff f i + rows ysize blk f i \<le> i + blk + 2 * extra_lines f"
    using bi ok e e0 i(1,2) by (auto simp: yoff_def rows_def)
qed

lemma run_write_ranges:
  assumes vc: "valid_config (int (length G)) blk f"
    and ok: "blk + 2 * extra_lines f - 1 < int (length G) \<or> f = 1"
  shows "raised (local_defor_rate G f t blk) = None"
    "write_ranges (io_log (local_defor_rate G f t blk)) =
       map (\<lambda>i. (i, yoff f i + rows (int (length G)) blk f i)) (range_from 0 (int (length G)) blk)"
proof -
  let ?w = "start_world\<lparr>out_band := Some (replicate (length G) None)\<rparr>"
  let ?R = "range_from 0 (int (length G)) blk"
  have v: "f mod 2 \<noteq> 0" "\<not> blk < f" "blk \<noteq> 0"
    using vc by (auto simp: valid_config_def)
  have run: "local_defor_rate G f t blk = blocks_loop G f t blk ?R ?w"
    using v by (simp add: local_defor_rate_def)
  have L: "raised (blocks_loop G f t blk ?R ?w) = None
    \<and> io_log (blocks_loop G f t blk ?R ?w) =
        io_log ?w @ concat (map (\<lambda>i. [Read (yoff f i) (rows (int (length G)) blk f i),
                Write i (nat (yoff f i + rows (int (length G)) blk f i - i))]) ?R)"
    by (rule blocks_loop_log[OF vc ok, where band = "replicate (length G) None"])
       (simp_all add: start_world_def)
  show "raised (local_defor_rate G f t blk) = None" using L by (simp add: run)
  have "write_ranges (io_log (local_defor_rate G f t blk)) =
      map (\<lambda>i. (i, i + int (nat (yoff f i + rows (int (length G)) blk f i - i)))) ?R"
    using L by (simp add: run start_world_def write_ranges_blocks)
  also have "\<dots> = map (\<lambda>i. (i, yoff f i + rows (int (length G)) blk f i)) ?R"
  proof (rule map_cong[OF refl])
    fix i assume "i \<in> set ?R"
    from block_end_bounds(1)[OF vc ok this]
    show "(i, i + int (nat (yoff f i + rows (int (length G)) blk f i - i)))
        = (i, yoff f i + rows (int (length G)) blk f i)" by simp
  qed
  finally show "write_ranges (io_log (local_defor_rate G f t blk)) =
       map (\<lambda>i. (i, yoff f i + rows (int (length G)) blk f i)) ?R" .
qed

text \<open>
  Claim C1, amended: for every valid configuration whose blocks all read inside the grid
  (the first block is not the last one, or the window has one cell), the run ends without
  error, every range it writes lies inside \<open>[0, ysize)\<close>, and every row of \<open>[0, ysize)\<close> is
  written at least once and at most twice: the ranges cover \<open>[0, ysize)\<close> without gaps, and
  they overlap where a block writes its bottom halo. With a window of one cell every row
  is written exactly once.
\<close>

theorem rows_written_once_or_twice:
  assumes "valid_config (int (length in_band)) blk_rows win_size"
    and "blk_rows + 2 * (win_size div 2) - 1 < int (length in_band) \<or> win_size = 1"
  shows "raised (local_defor_rate in_band win_size time_interval blk_rows) = None
    \<and> (\<forall>(a, b) \<in> set (write_ranges
            (io_log (local_defor_rate in_band win_size time_interval blk_rows))).
          0 \<le> a \<and> a < b \<and> b \<le> int (length in_band))
    \<and> (\<forall>r. 0 \<le> r \<and> r < int (length in_band) \<longrightarrow>
          1 \<le> times_written
                 (io_log (local_defor_rate in_band win_size time_interval blk_rows)) r
          \<and> times_written
                 (io_log (local_defor_rate in_band win_size time_interval blk_rows)) r \<le> 2
          \<and> (win_size = 1 \<longrightarrow>
                times_written
                  (io_log (local_defor_rate in_band win_size time_interval blk_rows)) r = 1))"
proof -
  let ?Y = "int (length in_band)"
  let ?R = "range_from 0 ?Y blk_rows"
  let ?E = "\<lambda>i. yoff win_size i + rows ?Y blk_rows win_size i"
  let ?log = "io_log (local_defor_rate in_band win_size time_interval blk_rows)"
  note vc = assms(1)
  have ok: "blk_rows + 2 * extra_lines win_size - 1 < ?Y \<or> win_size = 1"
    using assms(2) by (simp add: extra_lines_def)
  note e = extra_lines_bounds[OF vc]
  note B = e(4)
  note run = run_write_ranges[OF vc ok, of time_interval]
  note bnd = block_end_bounds[OF vc ok]
  have S: "set ?R = {i. 0 \<le> i \<and> i < ?Y \<and> i mod blk_rows = 0}"
    using range_from_set[OF B, of 0 ?Y] by simp
  have inside: "\<forall>(a, b) \<in> set (write_ranges ?log). 0 \<le> a \<and> a < b \<and> b \<le> ?Y"
    unfolding run(2) using bnd(1,2) S by auto
  have count: "1 \<le> times_written ?log r \<and> times_written ?log r \<le> 2
          \<and> (win_size = 1 \<longrightarrow> times_written ?log r = 1)" if r: "0 \<le> r" "r < ?Y" for r
  proof -
    define W where "W = {i \<in> set ?R. i \<le> r \<and> r < ?E i}"
    have "times_written ?log r = length (filter (\<lambda>i. i \<le> r \<and> r < ?E i) ?R)"
      by (simp add: times_written_def run(2) filter_map o_def)
    also have "\<dots> = card W"
      using distinct_range_from[OF B, of 0 ?Y]
      by (simp add: distinct_length_filter W_def Int_def conj_commute)
    finally have tw: "times_written ?log r = card W" .
    define i0 where "i0 = r - r mod blk_rows"
    have m: "0 \<le> r mod blk_rows" "r mod blk_rows < blk_rows" "r mod blk_rows \<le> r"
      using B r(1) by (auto intro: zmod_le_nonneg_dividend)
    have "(r - r mod blk_rows) mod blk_rows = 0"
      by (simp add: minus_mod_eq_mult_div)
    hence i0: "i0 \<in> set ?R" unfolding S i0_def using m r(2) by simp
    have r0: "i0 \<le> r" "r < i0 + blk_rows" using m by (auto simp: i0_def)
    obtain k0 where k0: "i0 = blk_rows * k0"
      using i0 S unfolding mod_eq_0_iff_dvd by (auto elim!: dvdE)
    have "r < ?E i0" using bnd(3)[OF i0] r0 r(2) by linarith
    hence i0W: "i0 \<in> W" using i0 r0 by (simp add: W_def)
    have sub: "i = i0 - blk_rows \<or> i = i0" if "i \<in> W" for i
    proof -
      have iR: "i \<in> set ?R" and ir: "i \<le> r" "r < ?E i" using that by (simp_all add: W_def)
      obtain k where k: "i = blk_rows * k"
        using iR S unfolding mod_eq_0_iff_dvd by (auto elim!: dvdE)
      have "r < i + blk_rows + 2 * extra_lines win_size" using ir(2) bnd(4)[OF iR] by linarith
      hence "i0 < i + 2 * blk_rows" "i < i0 + blk_rows" using r0 ir(1) e(3) by linarith+
      hence "blk_rows * k0 < blk_rows * (k + 2)" "blk_rows * k < blk_rows * (k0 + 1)"
        using k k0 by (simp_all add: algebra_simps)
      hence "k0 < k + 2" "k < k0 + 1" using B by (simp_all add: mult_less_cancel_left_pos)
      hence "k = k0 - 1 \<or> k = k0" by linarith
      thus ?thesis unfolding k k0 by (auto simp: right_diff_distrib)
    qed
    hence subset: "W \<subseteq> {i0 - blk_rows, i0}" by auto
    hence fin: "finite W" by (rule finite_subset) simp
    have "card W \<le> card {i0 - blk_rows, i0}" using subset by (intro card_mono) simp_all
    also have "\<dots> \<le> 2" by (simp add: card_insert_if)
    finally have le2: "card W \<le> 2" .
    have ge1: "1 \<le> card W" using i0W fin by (metis card_gt_0_iff empty_iff less_eq_Suc_le One_nat_def)
    have one: "card W = 1" if "win_size = 1"
    proof -
      have e0: "extra_lines win_size = 0" using that e(2) by simp
      have "i = i0" if "i \<in> W" for i
      proof -
        have iR: "i \<in> set ?R" and ir: "i \<le> r" "r < ?E i" using that by (simp_all add: W_def)
        have "r < i + blk_rows" using ir(2) bnd(4)[OF iR] e0 by linarith
        hence "i0 - blk_rows < i" using r0 by linarith
        thus ?thesis using sub[OF that] by auto
      qed
      hence "W = {i0}" using i0W by blast
      thus ?thesis by simp
    qed
    show ?thesis unfolding tw using le2 ge1 one by blast
  qed
  show ?thesis using run(1) inside count by blast
qed

text \<open>
  Claim C1, as stated: every row of the output is written exactly once, the write ranges
  having neither gaps nor overlaps. On a grid of 10 rows with blocks of 3 rows and a window
  of 3 cells the run writes the rows 0 to 4, then 3 to 6, then 6 to 9, then row 9: row 3
  is written twice.
\<close>

theorem rows_written_twice:
  "raised (local_defor_rate [[3], [3], [3], [3], [3], [3], [3], [3], [3], [3]] 3 1 3) = None
   \<and> write_ranges (io_log (local_defor_rate [[3], [3], [3], [3], [3], [3], [3], [3], [3], [3]] 3 1 3))
       = [(0, 5), (3, 7), (6, 10), (9, 10)]
   \<and> times_written (io_log (local_defor_rate [[3], [3], [3], [3], [3], [3], [3], [3], [3], [3]] 3 1 3)) 3
       = 2"
  by (simp add: times_written_def local_defor_rate_def start_world_def range_from.simps
      block_step_def rows_def yoff_def extra_lines_def ReadAsArray_def WriteArray_def
      written_def slice_from_def Let_def)

text \<open>
  Claim C1, witness: a grid of 6 rows and one column, blocks of 3 rows, a window of 3
  cells: the run writes the rows 0 to 4, then the rows 3 to 5.
\<close>

theorem rows_written_once_or_twice_witness:
  "valid_config (int (length [[1], [3], [0], [3], [3], [1::int]])) 3 3
   \<and> ((3::int) + 2 * (3 div 2) - 1 < int (length [[1], [3], [0], [3], [3], [1::int]])
        \<or> (3::int) = 1)
   \<and> raised (local_defor_rate [[1], [3], [0], [3], [3], [1]] 3 1 3) = None
   \<and> write_ranges (io_log (local_defor_rate [[1], [3], [0], [3], [3], [1]] 3 1 3))
       = [(0, 5), (3, 6)]
   \<and> times_written (io_log (local_defor_rate [[1], [3], [0], [3], [3], [1]] 3 1 3)) 0 = 1
   \<and> times_written (io_log (local_defor_rate [[1], [3], [0], [3], [3], [1]] 3 1 3)) 4 = 2"
proof -
  have l: "io_log (local_defor_rate [[1], [3], [0], [3], [3], [1]] 3 1 3)
      = [Read 0 5, Write 0 5, Read 2 4, Write 3 3]"
    by (simp add: local_defor_rate_def start_world_def range_from.simps block_step_def
        rows_def yoff_def extra_lines_def ReadAsArray_def WriteArray_def written_def
        slice_from_def Let_def)
  show ?thesis
    using rows_written_once_or_twice [of "[[1], [3], [0], [3], [3], [1]]" 3 3 1]
    by (simp add: l times_written_def valid_config_def)
qed

end
